theory Spec2Isabelle
  imports Main "HOL-Library.Word"
begin

unbundle bit_operations_syntax

section \<open>The I/O expander skeleton driver\<close>

text \<open>
  A shallow embedding of \<^verbatim>\<open>drivers/ioexpander/skeleton.c\<close>.

  The driver is a skeleton: every access to the expander hardware and to the interrupt
  controller is a \<^verbatim>\<open>#warning Missing logic\<close> line under a comment that names the access
  (``Read the pinset from the IO-Expander hardware'', ``Now write back the new pins
  states'', ``Re-enable interrupts'', ...). The embedding keeps the control flow of the
  source as it is written and treats each such line as one access of the named kind:
  the access is recorded as an event, and what it delivers (the pinset it reads, the
  status it leaves in \<^verbatim>\<open>ret\<close>) is a parameter of the call, collected in the record
  \<open>env\<close>. Nothing is assumed about these parameters.

  Every operation returns a triple: how the call ended, the device structure after the
  call, and the events of the call in the order in which the source performs them.
  Callers pass valid pointers: the conjuncts \<^verbatim>\<open>priv != NULL\<close>, \<^verbatim>\<open>value != NULL\<close>,
  \<^verbatim>\<open>pins != NULL\<close> and \<^verbatim>\<open>values != NULL\<close> of the assertions hold. The logging calls
  (\<^verbatim>\<open>gpioinfo\<close>) are left out.
\<close>

subsection \<open>Types\<close>

text \<open>\<^verbatim>\<open>uint8_t pin\<close>.\<close>

type_synonym pin_t = "8 word"

text \<open>
  \<^verbatim>\<open>ioe_callback_t\<close> is a function pointer. A handler is identified by its address;
  a field of this type is an \<open>option\<close>, with \<open>None\<close> for \<^verbatim>\<open>NULL\<close>.
\<close>

type_synonym ioe_callback_t = nat

text \<open>
  The error numbers the driver uses. Their numeric values live in \<^verbatim>\<open>errno.h\<close>, outside
  the driver, and no property depends on them; \<open>Errno n\<close> is any other error number.
  A function returning \<^verbatim>\<open>int\<close> returns \<open>Inl e\<close> for \<^verbatim>\<open>-e\<close> and \<open>OK\<close> for \<^verbatim>\<open>OK\<close>.
\<close>

datatype errno = EINTR | ENXIO | ENOSYS | ENOSPC | Errno nat

type_synonym retval = "errno + unit"

abbreviation OK :: retval where
  "OK \<equiv> Inr ()"

datatype direction = IOEXPANDER_DIRECTION_IN | IOEXPANDER_DIRECTION_OUT

text \<open>The \<^verbatim>\<open>opt\<close> argument of \<^verbatim>\<open>skel_option\<close>: the one value the driver tests for, or any other.\<close>

datatype ioe_option = IOEXPANDER_OPTION_INVERT | IOEXPANDER_OPTION_other nat

text \<open>
  \<^verbatim>\<open>struct skel_callback_s\<close> and \<^verbatim>\<open>struct skel_dev_s\<close>. The type \<open>'p\<close> is \<^verbatim>\<open>ioe_pinset_t\<close>,
  an unsigned integer type chosen by the configuration: it is always instantiated with
  a word type \<open>'a word\<close>. The array \<^verbatim>\<open>cb[CONFIG_skeleton_INT_NCALLBACKS]\<close> is a list, and
  its length is that constant. \<^verbatim>\<open>exclsem\<close> is the count of the semaphore. \<^verbatim>\<open>work\<close> is the
  number of times this work structure is queued and not yet run.
\<close>

record 'p skel_callback_s =
  pinset :: 'p
  cbfunc :: "ioe_callback_t option"

record 'p skel_dev_s =
  exclsem :: int
  work :: nat
  cb :: "'p skel_callback_s list"

text \<open>What a call does to its surroundings, in order.\<close>

datatype 'p event =
    Lock
  | Unlock
  | Set_direction pin_t direction
  | Set_option pin_t
  | Write_pin pin_t bool
  | Read_pin pin_t
  | Read_buf pin_t
  | Read_pinset
  | Write_pinset 'p
  | Callback ioe_callback_t 'p
  | Disable_irq
  | Enable_irq
  | Work_queue

text \<open>One call of \<^verbatim>\<open>sem_wait\<close>: it returns 0, or a negative value with \<^verbatim>\<open>errno\<close> set.\<close>

datatype sem_result = Sem_ok | Sem_fail errno

text \<open>
  What the surroundings deliver to one call: the results of its successive calls of
  \<^verbatim>\<open>sem_wait\<close>, the pinset that the missing hardware read leaves in the local variable
  \<^verbatim>\<open>pinset\<close>, and the status that the missing hardware access leaves in \<^verbatim>\<open>ret\<close>.
\<close>

record 'p env =
  waits :: "sem_result list"
  hw_pinset :: 'p
  hw_ret :: retval

text \<open>
  How a call ends: it returns a value, it stops on a failed assertion, or it is still
  waiting for the semaphore when the recorded results of \<^verbatim>\<open>sem_wait\<close> are used up.
\<close>

datatype outcome = Returned retval | Asserted | Blocked

datatype 'd acquire = Acquired 'd | Assert_failed | Waiting

subsection \<open>Assertions and the lock\<close>

text \<open>
  Modelled from the spec: the macro \<^verbatim>\<open>DEBUGASSERT\<close> (\<^verbatim>\<open>assert.h\<close> is not part of the driver).
  The spec treats a violated invariant as a fatal, non-recoverable condition (abort):
  when the condition \<open>f\<close> is false the call ends with \<open>stop\<close>, otherwise it goes on
  with \<open>rest\<close>.
\<close>

definition DEBUGASSERT :: "bool \<Rightarrow> 'r \<Rightarrow> 'r \<Rightarrow> 'r" where
  "DEBUGASSERT f stop rest = (if f then rest else stop)"

text \<open>
  \<^verbatim>\<open>skel_lock\<close>: \<^verbatim>\<open>while (sem_wait(&priv->exclsem) < 0) { DEBUGASSERT(errno == EINTR); }\<close>.
  A successful \<^verbatim>\<open>sem_wait\<close> takes one unit of the semaphore.
\<close>

fun skel_lock :: "sem_result list \<Rightarrow> 'p skel_dev_s \<Rightarrow> 'p skel_dev_s acquire" where
  "skel_lock [] priv = Waiting"
| "skel_lock (Sem_ok # ws) priv = Acquired (priv\<lparr>exclsem := exclsem priv - 1\<rparr>)"
| "skel_lock (Sem_fail e # ws) priv =
     DEBUGASSERT (e = EINTR) Assert_failed (skel_lock ws priv)"

text \<open>\<^verbatim>\<open>#define skel_unlock(p) sem_post(&(p)->exclsem)\<close>\<close>

definition skel_unlock :: "'p skel_dev_s \<Rightarrow> 'p skel_dev_s" where
  "skel_unlock priv = priv\<lparr>exclsem := exclsem priv + 1\<rparr>"

subsection \<open>Single pin operations\<close>

text \<open>
  In each of them \<^verbatim>\<open>ret\<close> is returned as the missing hardware access leaves it.
  The assertion of \<^verbatim>\<open>skel_direction\<close> names \<^verbatim>\<open>IOEXPANDER_DIRECTION_IN\<close> twice, as the source does.
\<close>

definition skel_direction ::
  "nat \<Rightarrow> 'p env \<Rightarrow> 'p skel_dev_s \<Rightarrow> pin_t \<Rightarrow> direction \<Rightarrow> outcome \<times> 'p skel_dev_s \<times> 'p event list" where
  "skel_direction npins e priv pin dir =
     DEBUGASSERT (unat pin < npins \<and>
                  (dir = IOEXPANDER_DIRECTION_IN \<or> dir = IOEXPANDER_DIRECTION_IN))
       (Asserted, priv, [])
       (case skel_lock (waits e) priv of
          Waiting \<Rightarrow> (Blocked, priv, [])
        | Assert_failed \<Rightarrow> (Asserted, priv, [])
        | Acquired p1 \<Rightarrow>
            (Returned (hw_ret e), skel_unlock p1, [Lock, Set_direction pin dir, Unlock]))"

text \<open>\<^verbatim>\<open>skel_option\<close> starts with \<^verbatim>\<open>ret = -ENOSYS\<close> and does not look at the pin.\<close>

definition skel_option ::
  "'p env \<Rightarrow> 'p skel_dev_s \<Rightarrow> pin_t \<Rightarrow> ioe_option \<Rightarrow> outcome \<times> 'p skel_dev_s \<times> 'p event list" where
  "skel_option e priv pin opt =
     (if opt = IOEXPANDER_OPTION_INVERT then
        (case skel_lock (waits e) priv of
           Waiting \<Rightarrow> (Blocked, priv, [])
         | Assert_failed \<Rightarrow> (Asserted, priv, [])
         | Acquired p1 \<Rightarrow> (Returned (hw_ret e), skel_unlock p1, [Lock, Set_option pin, Unlock]))
      else (Returned (Inl ENOSYS), priv, []))"

definition skel_writepin ::
  "nat \<Rightarrow> 'p env \<Rightarrow> 'p skel_dev_s \<Rightarrow> pin_t \<Rightarrow> bool \<Rightarrow> outcome \<times> 'p skel_dev_s \<times> 'p event list" where
  "skel_writepin npins e priv pin val =
     DEBUGASSERT (unat pin < npins)
       (Asserted, priv, [])
       (case skel_lock (waits e) priv of
          Waiting \<Rightarrow> (Blocked, priv, [])
        | Assert_failed \<Rightarrow> (Asserted, priv, [])
        | Acquired p1 \<Rightarrow> (Returned (hw_ret e), skel_unlock p1, [Lock, Write_pin pin val, Unlock]))"

definition skel_readpin ::
  "nat \<Rightarrow> 'p env \<Rightarrow> 'p skel_dev_s \<Rightarrow> pin_t \<Rightarrow> outcome \<times> 'p skel_dev_s \<times> 'p event list" where
  "skel_readpin npins e priv pin =
     DEBUGASSERT (unat pin < npins)
       (Asserted, priv, [])
       (case skel_lock (waits e) priv of
          Waiting \<Rightarrow> (Blocked, priv, [])
        | Assert_failed \<Rightarrow> (Asserted, priv, [])
        | Acquired p1 \<Rightarrow> (Returned (hw_ret e), skel_unlock p1, [Lock, Read_pin pin, Unlock]))"

text \<open>\<^verbatim>\<open>skel_readbuf\<close> has no assertion.\<close>

definition skel_readbuf ::
  "'p env \<Rightarrow> 'p skel_dev_s \<Rightarrow> pin_t \<Rightarrow> outcome \<times> 'p skel_dev_s \<times> 'p event list" where
  "skel_readbuf e priv pin =
     (case skel_lock (waits e) priv of
        Waiting \<Rightarrow> (Blocked, priv, [])
      | Assert_failed \<Rightarrow> (Asserted, priv, [])
      | Acquired p1 \<Rightarrow> (Returned (hw_ret e), skel_unlock p1, [Lock, Read_buf pin, Unlock]))"

subsection \<open>Multiple pin operations\<close>

text \<open>
  \<^verbatim>\<open>(1 << pin)\<close> and \<^verbatim>\<open>~(1 << pin)\<close>, computed in \<^verbatim>\<open>int\<close> (32 bits, two's complement) and
  converted to \<^verbatim>\<open>ioe_pinset_t\<close>, which extends the sign when the pinset is wider than
  \<^verbatim>\<open>int\<close>. A shift by 31 or more is undefined in C; here the bits shifted out are lost.
\<close>

definition pin_mask :: "pin_t \<Rightarrow> 'a::len word" where
  "pin_mask pin = signed (push_bit (unat pin) (1 :: 32 word))"

definition pin_mask_inv :: "pin_t \<Rightarrow> 'a::len word" where
  "pin_mask_inv pin = signed (NOT (push_bit (unat pin) (1 :: 32 word)))"

text \<open>
  The loop of \<^verbatim>\<open>skel_getmultibits\<close>, from index \<open>i\<close>. The source line
  \<^verbatim>\<open>values[i] = ((pinset & (1 << pin) != 0);\<close> lacks a closing parenthesis; it is
  read as \<^verbatim>\<open>((pinset & (1 << pin)) != 0)\<close>.
  The arrays \<^verbatim>\<open>pins\<close> and \<^verbatim>\<open>values\<close> are lists; the source reads and writes
  \<^verbatim>\<open>count\<close> elements of them, so a caller passes lists of at least that length.
\<close>

function skel_getmultibits_loop ::
  "nat \<Rightarrow> 'a::len word \<Rightarrow> nat \<Rightarrow> pin_t list \<Rightarrow> bool list \<Rightarrow> int \<Rightarrow> retval \<times> bool list" where
  "skel_getmultibits_loop npins ps i pins vals count =
     (if int i < count then
        (let pin = pins ! i in
         if npins \<le> unat pin then (Inl ENXIO, vals)
         else skel_getmultibits_loop npins ps (i + 1) pins
                (vals[i := (ps AND pin_mask pin \<noteq> 0)]) count)
      else (OK, vals))"
  by pat_completeness auto
termination
  by (relation "measure (\<lambda>(npins, ps, i, pins, vals, count). nat (count - int i))") auto

text \<open>\<^verbatim>\<open>skel_getmultibits\<close>: the hardware read, then the loop. It returns the status and the buffer.\<close>

definition skel_getmultibits ::
  "nat \<Rightarrow> ('a::len word) env \<Rightarrow> pin_t list \<Rightarrow> bool list \<Rightarrow> int
     \<Rightarrow> (retval \<times> bool list) \<times> 'a word event list" where
  "skel_getmultibits npins e pins vals count =
     (skel_getmultibits_loop npins (hw_pinset e) 0 pins vals count, [Read_pinset])"

text \<open>The loop of \<^verbatim>\<open>skel_multiwritepin\<close>, from index \<open>i\<close>; \<open>None\<close> is the exit with \<^verbatim>\<open>-ENXIO\<close>.\<close>

function skel_multiwritepin_loop ::
  "nat \<Rightarrow> nat \<Rightarrow> pin_t list \<Rightarrow> bool list \<Rightarrow> int \<Rightarrow> 'a::len word \<Rightarrow> 'a word option" where
  "skel_multiwritepin_loop npins i pins vals count ps =
     (if int i < count then
        (let pin = pins ! i in
         if npins \<le> unat pin then None
         else skel_multiwritepin_loop npins (i + 1) pins vals count
                (if vals ! i then ps OR pin_mask pin else ps AND pin_mask_inv pin))
      else Some ps)"
  by pat_completeness auto
termination
  by (relation "measure (\<lambda>(npins, i, pins, vals, count, ps). nat (count - int i))") auto

definition skel_multiwritepin ::
  "nat \<Rightarrow> ('a::len word) env \<Rightarrow> 'a word skel_dev_s \<Rightarrow> pin_t list \<Rightarrow> bool list \<Rightarrow> int
     \<Rightarrow> outcome \<times> 'a word skel_dev_s \<times> 'a word event list" where
  "skel_multiwritepin npins e priv pins vals count =
     (case skel_lock (waits e) priv of
        Waiting \<Rightarrow> (Blocked, priv, [])
      | Assert_failed \<Rightarrow> (Asserted, priv, [])
      | Acquired p1 \<Rightarrow>
          (case skel_multiwritepin_loop npins 0 pins vals count (hw_pinset e) of
             None \<Rightarrow> (Returned (Inl ENXIO), skel_unlock p1, [Lock, Read_pinset, Unlock])
           | Some ps \<Rightarrow>
               (Returned (hw_ret e), skel_unlock p1,
                [Lock, Read_pinset, Write_pinset ps, Unlock])))"

text \<open>
  \<^verbatim>\<open>skel_multireadpin\<close> and \<^verbatim>\<open>skel_multireadbuf\<close> have the same body. They return the
  triple of the call and the caller's buffer \<^verbatim>\<open>values\<close> as the call leaves it.
\<close>

definition skel_multireadpin ::
  "nat \<Rightarrow> ('a::len word) env \<Rightarrow> 'a word skel_dev_s \<Rightarrow> pin_t list \<Rightarrow> bool list \<Rightarrow> int
     \<Rightarrow> (outcome \<times> 'a word skel_dev_s \<times> 'a word event list) \<times> bool list" where
  "skel_multireadpin npins e priv pins vals count =
     DEBUGASSERT (count > 0)
       ((Asserted, priv, []), vals)
       (case skel_lock (waits e) priv of
          Waiting \<Rightarrow> ((Blocked, priv, []), vals)
        | Assert_failed \<Rightarrow> ((Asserted, priv, []), vals)
        | Acquired p1 \<Rightarrow>
            (case skel_getmultibits npins e pins vals count of
               ((ret, vals'), evs) \<Rightarrow>
                 ((Returned ret, skel_unlock p1, [Lock] @ evs @ [Unlock]), vals')))"

definition skel_multireadbuf ::
  "nat \<Rightarrow> ('a::len word) env \<Rightarrow> 'a word skel_dev_s \<Rightarrow> pin_t list \<Rightarrow> bool list \<Rightarrow> int
     \<Rightarrow> (outcome \<times> 'a word skel_dev_s \<times> 'a word event list) \<times> bool list" where
  "skel_multireadbuf npins e priv pins vals count =
     DEBUGASSERT (count > 0)
       ((Asserted, priv, []), vals)
       (case skel_lock (waits e) priv of
          Waiting \<Rightarrow> ((Blocked, priv, []), vals)
        | Assert_failed \<Rightarrow> ((Asserted, priv, []), vals)
        | Acquired p1 \<Rightarrow>
            (case skel_getmultibits npins e pins vals count of
               ((ret, vals'), evs) \<Rightarrow>
                 ((Returned ret, skel_unlock p1, [Lock] @ evs @ [Unlock]), vals')))"

subsection \<open>The callback table\<close>

text \<open>
  The loop of \<^verbatim>\<open>skel_attach\<close>, from index \<open>i\<close>, over the table and \<^verbatim>\<open>ret\<close>. The body of
  the \<^verbatim>\<open>if\<close> has no \<^verbatim>\<open>break\<close>: the loop goes on to the next index.
\<close>

function skel_attach_loop ::
  "nat \<Rightarrow> 'p \<Rightarrow> ioe_callback_t option \<Rightarrow> 'p skel_callback_s list \<Rightarrow> retval
     \<Rightarrow> 'p skel_callback_s list \<times> retval" where
  "skel_attach_loop i ps callback tbl ret =
     (if i < length tbl then
        (if cbfunc (tbl ! i) = None
         then skel_attach_loop (i + 1) ps callback
                (tbl[i := (tbl ! i)\<lparr>pinset := ps, cbfunc := callback\<rparr>]) OK
         else skel_attach_loop (i + 1) ps callback tbl ret)
      else (tbl, ret))"
  by pat_completeness auto
termination
  by (relation "measure (\<lambda>(i, ps, callback, tbl, ret). length tbl - i)") auto

definition skel_attach ::
  "'p env \<Rightarrow> 'p skel_dev_s \<Rightarrow> 'p \<Rightarrow> ioe_callback_t option
     \<Rightarrow> outcome \<times> 'p skel_dev_s \<times> 'p event list" where
  "skel_attach e priv ps callback =
     (case skel_lock (waits e) priv of
        Waiting \<Rightarrow> (Blocked, priv, [])
      | Assert_failed \<Rightarrow> (Asserted, priv, [])
      | Acquired p1 \<Rightarrow>
          (case skel_attach_loop 0 ps callback (cb p1) (Inl ENOSPC) of
             (tbl, ret) \<Rightarrow> (Returned ret, skel_unlock (p1\<lparr>cb := tbl\<rparr>), [Lock, Unlock])))"

subsection \<open>Interrupt handling\<close>

text \<open>
  The loop of \<^verbatim>\<open>skel_irqworker\<close>, from index \<open>i\<close>: the calls of the handlers it makes.
  A handler is client code; its call is recorded with the handler and the argument
  \<^verbatim>\<open>match\<close>.
\<close>

function skel_irqworker_loop ::
  "nat \<Rightarrow> 'a::len word \<Rightarrow> 'a word skel_callback_s list \<Rightarrow> 'a word event list" where
  "skel_irqworker_loop i ps tbl =
     (if i < length tbl then
        (case cbfunc (tbl ! i) of
           None \<Rightarrow> []
         | Some f \<Rightarrow>
             (let match = ps AND pinset (tbl ! i) in
              if match \<noteq> 0 then [Callback f match] else []))
        @ skel_irqworker_loop (i + 1) ps tbl
      else [])"
  by pat_completeness auto
termination
  by (relation "measure (\<lambda>(i, ps, tbl). length tbl - i)") auto

text \<open>
  \<^verbatim>\<open>skel_irqworker\<close> returns nothing and does not change the device structure: its result
  is the list of its events. It reads the pinset, runs the loop, re-enables interrupts.
\<close>

definition skel_irqworker :: "('a::len word) env \<Rightarrow> 'a word skel_dev_s \<Rightarrow> 'a word event list" where
  "skel_irqworker e priv =
     [Read_pinset] @ skel_irqworker_loop 0 (hw_pinset e) (cb priv) @ [Enable_irq]"

text \<open>
  Modelled from the spec: \<^verbatim>\<open>work_available\<close> and \<^verbatim>\<open>work_queue\<close> of the deferred work
  scheduler (\<^verbatim>\<open>wqueue.h\<close> is not part of the driver). The spec gives the scheduler a
  \<^verbatim>\<open>schedule(fn, context)\<close> that enqueues work for later execution, ``with an associated
  `is an item for this slot already pending' query''. On the number of queued items:
\<close>

definition work_available :: "nat \<Rightarrow> bool" where
  "work_available w = (w = 0)"

definition work_queue :: "nat \<Rightarrow> nat" where
  "work_queue w = Suc w"

text \<open>\<^verbatim>\<open>skel_interrupt\<close>, for the single device \<^verbatim>\<open>g_skel\<close>.\<close>

definition skel_interrupt :: "'p skel_dev_s \<Rightarrow> outcome \<times> 'p skel_dev_s \<times> 'p event list" where
  "skel_interrupt priv =
     (if work_available (work priv)
      then (Returned OK, priv\<lparr>work := work_queue (work priv)\<rparr>, [Disable_irq, Work_queue])
      else (Returned OK, priv, []))"

text \<open>
  Modelled from the spec: the worker context of the deferred work scheduler, which runs
  a queued item to completion. With nothing queued it does nothing; otherwise it takes
  one item off the queue and runs \<^verbatim>\<open>skel_irqworker\<close> on the device.
\<close>

definition worker_thread ::
  "('a::len word) env \<Rightarrow> 'a word skel_dev_s \<Rightarrow> outcome \<times> 'a word skel_dev_s \<times> 'a word event list" where
  "worker_thread e priv =
     (if work priv = 0 then (Returned OK, priv, [])
      else (Returned OK, priv\<lparr>work := work priv - 1\<rparr>, skel_irqworker e priv))"

subsection \<open>Initialisation and the driver as a whole\<close>

text \<open>
  \<^verbatim>\<open>skel_initialize\<close>, single device: \<^verbatim>\<open>sem_init(&priv->exclsem, 0, 1)\<close>. The static device
  structure \<^verbatim>\<open>g_skel\<close> starts zeroed: an empty work structure and \<^verbatim>\<open>n\<close> free table entries.
\<close>

definition skel_initialize :: "'p skel_dev_s \<Rightarrow> outcome \<times> 'p skel_dev_s \<times> 'p event list" where
  "skel_initialize priv = (Returned OK, priv\<lparr>exclsem := 1\<rparr>, [])"

definition g_skel :: "nat \<Rightarrow> ('a::len word) skel_dev_s" where
  "g_skel n = \<lparr>exclsem = 0, work = 0, cb = replicate n \<lparr>pinset = 0, cbfunc = None\<rparr>\<rparr>"

text \<open>Everything that can happen to a device: the calls of the driver's functions.\<close>

datatype 'p call =
    Initialize
  | Direction pin_t direction
  | Option pin_t ioe_option
  | Writepin pin_t bool
  | Readpin pin_t
  | Readbuf pin_t
  | Multiwritepin "pin_t list" "bool list" int
  | Multireadpin "pin_t list" "bool list" int
  | Multireadbuf "pin_t list" "bool list" int
  | Attach 'p "ioe_callback_t option"
  | Interrupt
  | Worker

fun run ::
  "nat \<Rightarrow> ('a::len word) env \<Rightarrow> 'a word call \<Rightarrow> 'a word skel_dev_s
     \<Rightarrow> outcome \<times> 'a word skel_dev_s \<times> 'a word event list" where
  "run npins e Initialize priv = skel_initialize priv"
| "run npins e (Direction pin dir) priv = skel_direction npins e priv pin dir"
| "run npins e (Option pin opt) priv = skel_option e priv pin opt"
| "run npins e (Writepin pin val) priv = skel_writepin npins e priv pin val"
| "run npins e (Readpin pin) priv = skel_readpin npins e priv pin"
| "run npins e (Readbuf pin) priv = skel_readbuf e priv pin"
| "run npins e (Multiwritepin pins vals count) priv = skel_multiwritepin npins e priv pins vals count"
| "run npins e (Multireadpin pins vals count) priv = fst (skel_multireadpin npins e priv pins vals count)"
| "run npins e (Multireadbuf pins vals count) priv = fst (skel_multireadbuf npins e priv pins vals count)"
| "run npins e (Attach ps callback) priv = skel_attach e priv ps callback"
| "run npins e Interrupt priv = skel_interrupt priv"
| "run npins e Worker priv = worker_thread e priv"

text \<open>
  A history is a list of calls, each with what its surroundings deliver. A failed
  assertion stops the system, and a call that waits for ever does not return: the
  history ends there.
\<close>

fun runs :: "nat \<Rightarrow> (('a::len word) env \<times> 'a word call) list \<Rightarrow> 'a word skel_dev_s \<Rightarrow> 'a word skel_dev_s" where
  "runs npins [] priv = priv"
| "runs npins ((e, c) # cs) priv =
     (case run npins e c priv of
        (Returned r, priv', evs) \<Rightarrow> runs npins cs priv'
      | (Asserted, priv', evs) \<Rightarrow> priv'
      | (Blocked, priv', evs) \<Rightarrow> priv')"

text \<open>
  A list of events leaves the lock released: starting with the lock held or not (\<open>h\<close>),
  it is taken only when free, given back only when held, and free at the end.
\<close>

fun released :: "bool \<Rightarrow> 'p event list \<Rightarrow> bool" where
  "released h [] = (\<not> h)"
| "released h (Lock # evs) = (\<not> h \<and> released True evs)"
| "released h (Unlock # evs) = (h \<and> released False evs)"
| "released h (ev # evs) = released h evs"

text \<open>
  The recursion equations of the loops are unfolded by hand in the proofs, and by
  \<open>code_simp\<close> on concrete inputs.
\<close>

declare skel_attach_loop.simps [simp del]
declare skel_irqworker_loop.simps [simp del]
declare skel_getmultibits_loop.simps [simp del]
declare skel_multiwritepin_loop.simps [simp del]

section \<open>Properties\<close>

subsection \<open>The lock\<close>

lemma skel_lock_Acquired:
  "skel_lock ws priv = Acquired p1 \<Longrightarrow> p1 = priv\<lparr>exclsem := exclsem priv - 1\<rparr>"
proof (induction ws)
  case Nil
  then show ?case by simp
next
  case (Cons w ws)
  then show ?case
    by (cases w) (auto simp: DEBUGASSERT_def split: if_splits)
qed

lemma skel_unlock_lock:
  "skel_lock ws priv = Acquired p1 \<Longrightarrow> skel_unlock p1 = priv"
  by (drule skel_lock_Acquired) (simp add: skel_unlock_def)

lemma skel_lock_retry:
  "skel_lock (replicate n (Sem_fail EINTR) @ ws) priv = skel_lock ws priv"
  by (induction n) (simp_all add: DEBUGASSERT_def)

subsection \<open>The loop of attach\<close>

lemma skel_attach_loop_length:
  "length (fst (skel_attach_loop i ps callback tbl ret)) = length tbl"
  by (induction i ps callback tbl ret rule: skel_attach_loop.induct)
     (subst skel_attach_loop.simps, simp)

lemma skel_attach_loop_nth:
  "k < length tbl \<Longrightarrow>
   fst (skel_attach_loop i ps callback tbl ret) ! k =
     (if i \<le> k \<and> cbfunc (tbl ! k) = None
      then (tbl ! k)\<lparr>pinset := ps, cbfunc := callback\<rparr> else tbl ! k)"
proof (induction i ps callback tbl ret rule: skel_attach_loop.induct)
  case (1 i ps callback tbl ret)
  show ?case
  proof (cases "i < length tbl")
    case False
    with "1.prems" show ?thesis
      by (subst skel_attach_loop.simps) simp
  next
    case True
    show ?thesis
    proof (cases "cbfunc (tbl ! i) = None")
      case free: True
      have "fst (skel_attach_loop i ps callback tbl ret) ! k =
            fst (skel_attach_loop (i + 1) ps callback
                  (tbl[i := (tbl ! i)\<lparr>pinset := ps, cbfunc := callback\<rparr>]) OK) ! k"
        using True free by (subst skel_attach_loop.simps) simp
      also have "\<dots> = (if i \<le> k \<and> cbfunc (tbl ! k) = None
                        then (tbl ! k)\<lparr>pinset := ps, cbfunc := callback\<rparr> else tbl ! k)"
        using "1.IH"(1) [OF True free] "1.prems" True free
        by (cases "k = i") (auto simp: nth_list_update)
      finally show ?thesis .
    next
      case occupied: False
      have "fst (skel_attach_loop i ps callback tbl ret) ! k =
            fst (skel_attach_loop (i + 1) ps callback tbl ret) ! k"
        using True occupied by (subst skel_attach_loop.simps) (simp del: not_None_eq)
      also have "\<dots> = (if i \<le> k \<and> cbfunc (tbl ! k) = None
                        then (tbl ! k)\<lparr>pinset := ps, cbfunc := callback\<rparr> else tbl ! k)"
        using "1.IH"(2) [OF True occupied] "1.prems" True occupied
        by (cases "k = i") auto
      finally show ?thesis .
    qed
  qed
qed

lemma skel_attach_loop_ret:
  "snd (skel_attach_loop i ps callback tbl ret) =
     (if \<exists>k. i \<le> k \<and> k < length tbl \<and> cbfunc (tbl ! k) = None then OK else ret)"
proof (induction i ps callback tbl ret rule: skel_attach_loop.induct)
  case (1 i ps callback tbl ret)
  show ?case
  proof (cases "i < length tbl")
    case False
    then show ?thesis
      by (subst skel_attach_loop.simps) auto
  next
    case True
    show ?thesis
    proof (cases "cbfunc (tbl ! i) = None")
      case free: True
      have "snd (skel_attach_loop i ps callback tbl ret) =
            snd (skel_attach_loop (i + 1) ps callback
                  (tbl[i := (tbl ! i)\<lparr>pinset := ps, cbfunc := callback\<rparr>]) OK)"
        using True free by (subst skel_attach_loop.simps) simp
      also have "\<dots> = OK"
        using "1.IH"(1) [OF True free] by simp
      finally show ?thesis using True free by auto
    next
      case occupied: False
      have "snd (skel_attach_loop i ps callback tbl ret) =
            snd (skel_attach_loop (i + 1) ps callback tbl ret)"
        using True occupied by (subst skel_attach_loop.simps) (simp del: not_None_eq)
      also have "\<dots> = (if \<exists>k. i + 1 \<le> k \<and> k < length tbl \<and> cbfunc (tbl ! k) = None then OK else ret)"
        using "1.IH"(2) [OF True occupied] by simp
      also have "\<dots> = (if \<exists>k. i \<le> k \<and> k < length tbl \<and> cbfunc (tbl ! k) = None then OK else ret)"
      proof -
        have "(\<exists>k. i + 1 \<le> k \<and> k < length tbl \<and> cbfunc (tbl ! k) = None) =
              (\<exists>k. i \<le> k \<and> k < length tbl \<and> cbfunc (tbl ! k) = None)"
          using occupied by (metis Suc_eq_plus1 Suc_leI le_neq_implies_less Suc_leD)
        then show ?thesis by simp
      qed
      finally show ?thesis .
    qed
  qed
qed

lemma skel_attach_loop_map:
  "skel_attach_loop 0 ps callback tbl ret =
     (map (\<lambda>en. if cbfunc en = None then en\<lparr>pinset := ps, cbfunc := callback\<rparr> else en) tbl,
      if \<exists>en \<in> set tbl. cbfunc en = None then OK else ret)"
proof -
  have "fst (skel_attach_loop 0 ps callback tbl ret) =
        map (\<lambda>en. if cbfunc en = None then en\<lparr>pinset := ps, cbfunc := callback\<rparr> else en) tbl"
    by (rule nth_equalityI) (simp_all add: skel_attach_loop_length skel_attach_loop_nth)
  moreover have "snd (skel_attach_loop 0 ps callback tbl ret) =
      (if \<exists>en \<in> set tbl. cbfunc en = None then OK else ret)"
  proof -
    have "(\<exists>k. 0 \<le> k \<and> k < length tbl \<and> cbfunc (tbl ! k) = None) =
          (\<exists>en \<in> set tbl. cbfunc en = None)"
    proof
      assume "\<exists>k. 0 \<le> k \<and> k < length tbl \<and> cbfunc (tbl ! k) = None"
      then obtain k where "k < length tbl" "cbfunc (tbl ! k) = None" by blast
      then have "tbl ! k \<in> set tbl" "cbfunc (tbl ! k) = None" by simp_all
      then show "\<exists>en \<in> set tbl. cbfunc en = None" by blast
    next
      assume "\<exists>en \<in> set tbl. cbfunc en = None"
      then obtain en where "en \<in> set tbl" "cbfunc en = None" by blast
      then obtain k where "k < length tbl" "tbl ! k = en" by (auto simp: in_set_conv_nth)
      with \<open>cbfunc en = None\<close> show "\<exists>k. 0 \<le> k \<and> k < length tbl \<and> cbfunc (tbl ! k) = None"
        by blast
    qed
    then show ?thesis by (simp only: skel_attach_loop_ret)
  qed
  ultimately show ?thesis by (simp add: prod_eq_iff)
qed

subsection \<open>The loop of the bottom half\<close>

lemma skel_irqworker_loop_drop:
  "skel_irqworker_loop i ps tbl =
     concat (map (\<lambda>en. case cbfunc en of None \<Rightarrow> []
                        | Some f \<Rightarrow> if ps AND pinset en \<noteq> 0 then [Callback f (ps AND pinset en)] else [])
                 (drop i tbl))"
proof (induction i ps tbl rule: skel_irqworker_loop.induct)
  case (1 i ps tbl)
  show ?case
  proof (cases "i < length tbl")
    case False
    then show ?thesis by (subst skel_irqworker_loop.simps) simp
  next
    case True
    then have d: "drop i tbl = tbl ! i # drop (i + 1) tbl"
      by (simp add: Cons_nth_drop_Suc)
    show ?thesis
      using True "1.IH" [OF True]
      by (subst skel_irqworker_loop.simps) (simp add: d Let_def split: option.splits)
  qed
qed

lemma concat_map_filter:
  "concat (map (\<lambda>en. case cbfunc en of None \<Rightarrow> []
                    | Some f \<Rightarrow> if (ps :: 'a :: len word) AND pinset en \<noteq> 0 then [Callback f (ps AND pinset en)] else []) tbl) =
   map (\<lambda>en. Callback (the (cbfunc en)) (ps AND pinset en))
       (filter (\<lambda>en. cbfunc en \<noteq> None \<and> ps AND pinset en \<noteq> 0) tbl)"
  by (induction tbl) (auto split: option.splits)

lemma skel_irqworker_events:
  "skel_irqworker e priv =
     [Read_pinset] @
     map (\<lambda>en. Callback (the (cbfunc en)) (hw_pinset e AND pinset en))
         (filter (\<lambda>en. cbfunc en \<noteq> None \<and> hw_pinset e AND pinset en \<noteq> 0) (cb priv)) @
     [Enable_irq]"
  by (simp only: skel_irqworker_def skel_irqworker_loop_drop drop_0 concat_map_filter)

subsection \<open>The loops over several pins\<close>

lemma skel_multiwritepin_loop_out_of_range:
  "i \<le> m \<Longrightarrow> int m < count \<Longrightarrow> npins \<le> unat (pins ! m) \<Longrightarrow>
   skel_multiwritepin_loop npins i pins vals count ps = None"
proof (induction npins i pins vals count ps rule: skel_multiwritepin_loop.induct)
  case (1 npins i pins vals count ps)
  from "1.prems" have lt: "int i < count" by simp
  show ?case
  proof (cases "npins \<le> unat (pins ! i)")
    case True
    with lt show ?thesis
      by (subst skel_multiwritepin_loop.simps) simp
  next
    case False
    with "1.prems" have "i \<noteq> m" by auto
    with "1.prems" have le: "i + 1 \<le> m" by simp
    have "skel_multiwritepin_loop npins (i + 1) pins vals count
            (if vals ! i then ps OR pin_mask (pins ! i) else ps AND pin_mask_inv (pins ! i)) = None"
      using "1.IH" [OF lt refl False le "1.prems"(2) "1.prems"(3)] .
    with lt False show ?thesis
      by (subst skel_multiwritepin_loop.simps) (simp add: Let_def)
  qed
qed

lemma skel_multiwritepin_loop_in_range:
  "nat count \<le> length pins \<Longrightarrow> nat count \<le> length vals \<Longrightarrow>
   \<forall>j. i \<le> j \<and> int j < count \<longrightarrow> unat (pins ! j) < npins \<Longrightarrow>
   skel_multiwritepin_loop npins i pins vals count ps =
     Some (fold (\<lambda>(pin, v) ps. if v then ps OR pin_mask pin else ps AND pin_mask_inv pin)
             (drop i (zip (take (nat count) pins) (take (nat count) vals))) ps)"
proof (induction npins i pins vals count ps rule: skel_multiwritepin_loop.induct)
  case (1 npins i pins vals count ps)
  let ?z = "zip (take (nat count) pins) (take (nat count) vals)"
  from "1.prems" have len: "length ?z = nat count" by simp
  show ?case
  proof (cases "int i < count")
    case False
    then have "drop i ?z = []" using len by simp
    with False show ?thesis
      by (subst skel_multiwritepin_loop.simps) simp
  next
    case True
    then have i: "i < nat count" by simp
    with "1.prems" have inr: "\<not> npins \<le> unat (pins ! i)" using True by (simp add: not_le)
    from i have iz: "i < length ?z" by (simp only: len)
    have zi: "?z ! i = (pins ! i, vals ! i)"
      using i "1.prems" by simp
    have d: "drop i ?z = (pins ! i, vals ! i) # drop (i + 1) ?z"
      using Cons_nth_drop_Suc [OF iz, symmetric] by (simp only: zi Suc_eq_plus1)
    have "skel_multiwritepin_loop npins (i + 1) pins vals count
            (if vals ! i then ps OR pin_mask (pins ! i) else ps AND pin_mask_inv (pins ! i)) =
          Some (fold (\<lambda>(pin, v) ps. if v then ps OR pin_mask pin else ps AND pin_mask_inv pin)
                  (drop (i + 1) ?z)
                  (if vals ! i then ps OR pin_mask (pins ! i) else ps AND pin_mask_inv (pins ! i)))"
      using "1.IH" [OF True refl inr "1.prems"(1) "1.prems"(2)] "1.prems"(3) by simp
    with True inr show ?thesis
      by (subst skel_multiwritepin_loop.simps) (simp add: Let_def d)
  qed
qed

lemma skel_getmultibits_loop_fail:
  "i \<le> m \<Longrightarrow> int m < count \<Longrightarrow> npins \<le> unat (pins ! m) \<Longrightarrow>
   \<forall>j. i \<le> j \<and> j < m \<longrightarrow> unat (pins ! j) < npins \<Longrightarrow>
   skel_getmultibits_loop npins ps i pins vals count =
     (Inl ENXIO, fold (\<lambda>j vs. vs[j := (ps AND pin_mask (pins ! j) \<noteq> 0)]) [i..<m] vals)"
proof (induction npins ps i pins vals count rule: skel_getmultibits_loop.induct)
  case (1 npins ps i pins vals count)
  from "1.prems" have lt: "int i < count" by simp
  show ?case
  proof (cases "i = m")
    case True
    with lt "1.prems" show ?thesis
      by (subst skel_getmultibits_loop.simps) simp
  next
    case False
    with "1.prems" have le: "i + 1 \<le> m" and im: "i < m" by simp_all
    with "1.prems" have inr: "\<not> npins \<le> unat (pins ! i)" by (simp add: not_le)
    have rest: "\<forall>j. i + 1 \<le> j \<and> j < m \<longrightarrow> unat (pins ! j) < npins"
      using "1.prems"(4) by simp
    have u: "[i..<m] = i # [i + 1..<m]"
      using im by (simp add: upt_conv_Cons)
    have "skel_getmultibits_loop npins ps (i + 1) pins
            (vals[i := (ps AND pin_mask (pins ! i) \<noteq> 0)]) count =
          (Inl ENXIO, fold (\<lambda>j vs. vs[j := (ps AND pin_mask (pins ! j) \<noteq> 0)]) [i + 1..<m]
                        (vals[i := (ps AND pin_mask (pins ! i) \<noteq> 0)]))"
      using "1.IH" [OF lt refl inr le "1.prems"(2) "1.prems"(3) rest] .
    with lt inr show ?thesis
      by (subst skel_getmultibits_loop.simps) (simp add: Let_def u)
  qed
qed

lemma fold_update_length:
  "length (fold (\<lambda>j vs. vs[j := f j]) js vals) = length vals"
  by (induction js arbitrary: vals) simp_all

lemma fold_update_nth:
  "k < length vals \<Longrightarrow>
   (fold (\<lambda>j vs. vs[j := f j]) [i..<m] vals) ! k =
     (if i \<le> k \<and> k < m then f k else vals ! k)"
proof (induction m)
  case 0
  then show ?case by simp
next
  case (Suc m)
  show ?case
  proof (cases "i \<le> m")
    case False
    then show ?thesis by (auto simp: not_le)
  next
    case True
    have "fold (\<lambda>j vs. vs[j := f j]) [i..<Suc m] vals ! k =
          (fold (\<lambda>j vs. vs[j := f j]) [i..<m] vals)[m := f m] ! k"
      using True by simp
    also have "\<dots> = (if k = m then f m else fold (\<lambda>j vs. vs[j := f j]) [i..<m] vals ! k)"
      using Suc.prems by (simp add: nth_list_update fold_update_length)
    also have "\<dots> = (if i \<le> k \<and> k < Suc m then f k else vals ! k)"
      using Suc.IH [OF Suc.prems] True by auto
    finally show ?thesis .
  qed
qed

lemma fold_update_prefix:
  "m \<le> length vals \<Longrightarrow>
   fold (\<lambda>j vs. vs[j := f j]) [0..<m] vals = map f [0..<m] @ drop m vals"
  by (rule nth_equalityI)
     (auto simp: fold_update_length fold_update_nth nth_append)

lemma skel_getmultibits_loop_out_of_range:
  "i \<le> m \<Longrightarrow> int m < count \<Longrightarrow> npins \<le> unat (pins ! m) \<Longrightarrow>
   fst (skel_getmultibits_loop npins ps i pins vals count) = Inl ENXIO"
proof (induction npins ps i pins vals count rule: skel_getmultibits_loop.induct)
  case (1 npins ps i pins vals count)
  from "1.prems" have lt: "int i < count" by simp
  show ?case
  proof (cases "npins \<le> unat (pins ! i)")
    case True
    with lt show ?thesis
      by (subst skel_getmultibits_loop.simps) simp
  next
    case False
    with "1.prems" have "i \<noteq> m" by auto
    with "1.prems" have le: "i + 1 \<le> m" by simp
    have "fst (skel_getmultibits_loop npins ps (i + 1) pins
                 (vals[i := (ps AND pin_mask (pins ! i) \<noteq> 0)]) count) = Inl ENXIO"
      using "1.IH" [OF lt refl False le "1.prems"(2) "1.prems"(3)] .
    with lt False show ?thesis
      by (subst skel_getmultibits_loop.simps) (simp add: Let_def)
  qed
qed

subsection \<open>The masks of a pin\<close>

text \<open>
  When the pin index is below 31, or the pinset has at most 32 bits, \<^verbatim>\<open>pinset |= (1 << pin)\<close>
  sets the bit of the pin and \<^verbatim>\<open>pinset &= ~(1 << pin)\<close> clears it, and no other bit changes.
\<close>

lemma pin_mask_push_bit:
  assumes "unat pin < 31 \<or> LENGTH('a::len) \<le> 32"
  shows "(pin_mask pin :: 'a word) = push_bit (unat pin) 1"
proof (rule bit_word_eqI)
  fix n
  assume n: "n < LENGTH('a)"
  from assms n have "min 31 n = unat pin \<longleftrightarrow> n = unat pin"
    by (auto simp: min_def)
  moreover from assms n have "n = unat pin \<Longrightarrow> unat pin < 32" by auto
  ultimately show "bit (pin_mask pin :: 'a word) n = bit (push_bit (unat pin) 1 :: 'a word) n"
    using n by (auto simp: pin_mask_def bit_signed_iff bit_exp_iff possible_bit_word)
qed

lemma pin_mask_inv_not:
  "(pin_mask_inv pin :: 'a::len word) = NOT (pin_mask pin)"
proof (rule bit_word_eqI)
  fix n
  assume n: "n < LENGTH('a)"
  have "min 31 n < 32" by simp
  then show "bit (pin_mask_inv pin :: 'a word) n = bit (NOT (pin_mask pin) :: 'a word) n"
    using n by (simp add: pin_mask_def pin_mask_inv_def bit_signed_iff bit_not_iff)
qed

lemma pin_mask_set_bit:
  assumes "unat pin < 31 \<or> LENGTH('a::len) \<le> 32"
  shows "(ps :: 'a word) OR pin_mask pin = set_bit (unat pin) ps"
    and "ps AND pin_mask_inv pin = unset_bit (unat pin) ps"
  by (simp_all add: pin_mask_inv_not pin_mask_push_bit [OF assms] set_bit_eq_or unset_bit_eq_and_not)

lemma fold_pin_changes:
  assumes "LENGTH('a::len) \<le> 32 \<or> npins \<le> 31"
    and "\<forall>(pin, v) \<in> set pvs. unat pin < npins"
  shows "fold (\<lambda>(pin, v) ps. if v then ps OR pin_mask pin else ps AND pin_mask_inv pin) pvs (ps0 :: 'a word) =
         fold (\<lambda>(pin, v) ps. if v then set_bit (unat pin) ps else unset_bit (unat pin) ps) pvs ps0"
  using assms(2)
proof (induction pvs arbitrary: ps0)
  case Nil
  show ?case by simp
next
  case (Cons pv pvs)
  obtain pin v where pv: "pv = (pin, v)" by (cases pv)
  from Cons.prems pv have "unat pin < npins" by simp
  with assms(1) have w: "unat pin < 31 \<or> LENGTH('a) \<le> 32" by auto
  from Cons.prems have rest: "\<forall>(pin, v) \<in> set pvs. unat pin < npins" by simp
  show ?case
    using Cons.IH [OF rest] by (simp add: pv pin_mask_set_bit [OF w])
qed

text \<open>
  The whole call on a batch of pins that are all below the pin count: one read, the
  changes of the pins applied in turn to the value read, one write. Where the pinset
  has at most 32 bits, or there are at most 31 pins, the change of a pin sets or clears
  the bit of that pin and no other.
\<close>

lemma skel_multiwritepin_in_range:
  assumes "skel_lock (waits e) priv = Acquired p1"
    and "nat count \<le> length pins" and "nat count \<le> length vals"
    and "\<forall>i. int i < count \<longrightarrow> unat (pins ! i) < npins"
  shows "skel_multiwritepin npins e priv pins vals count =
     (Returned (hw_ret e), priv,
      [Lock, Read_pinset,
       Write_pinset
         (fold (\<lambda>(pin, v) ps. if v then ps OR pin_mask pin else ps AND pin_mask_inv pin)
            (zip (take (nat count) pins) (take (nat count) vals)) (hw_pinset e)),
       Unlock]) \<and>
     (LENGTH('a::len) \<le> 32 \<or> npins \<le> 31 \<longrightarrow>
      fold (\<lambda>(pin, v) ps. if v then ps OR pin_mask pin else ps AND pin_mask_inv pin)
         (zip (take (nat count) pins) (take (nat count) vals)) (hw_pinset e :: 'a word) =
      fold (\<lambda>(pin, v) ps. if v then set_bit (unat pin) ps else unset_bit (unat pin) ps)
         (zip (take (nat count) pins) (take (nat count) vals)) (hw_pinset e))"
proof -
  let ?pvs = "zip (take (nat count) pins) (take (nat count) vals)"
  have "skel_multiwritepin_loop npins 0 pins vals count (hw_pinset e) =
     Some (fold (\<lambda>(pin, v) ps. if v then ps OR pin_mask pin else ps AND pin_mask_inv pin)
             (drop 0 ?pvs) (hw_pinset e))"
    using assms(4) by (intro skel_multiwritepin_loop_in_range [OF assms(2) assms(3)]) simp
  then have call: "skel_multiwritepin npins e priv pins vals count =
     (Returned (hw_ret e), priv,
      [Lock, Read_pinset,
       Write_pinset
         (fold (\<lambda>(pin, v) ps. if v then ps OR pin_mask pin else ps AND pin_mask_inv pin)
            ?pvs (hw_pinset e)),
       Unlock])"
    by (simp add: skel_multiwritepin_def assms(1) skel_unlock_lock [OF assms(1)])
  have inr: "\<forall>(pin, v) \<in> set ?pvs. unat pin < npins"
  proof (clarify)
    fix pin v
    assume "(pin, v) \<in> set ?pvs"
    then have "pin \<in> set (take (nat count) pins)" by (rule set_zip_leftD)
    then obtain i where i: "i < length (take (nat count) pins)" "take (nat count) pins ! i = pin"
      by (auto simp: in_set_conv_nth)
    then have "int i < count" "pins ! i = pin" by auto
    with assms(4) show "unat pin < npins" by blast
  qed
  show ?thesis
    using call fold_pin_changes [OF _ inr] by blast
qed

subsection \<open>The effect of one call and of a history\<close>

lemma skel_attach_acquired:
  assumes "skel_lock (waits e) priv = Acquired p1"
  shows "skel_attach e priv ps callback =
     (Returned (if \<exists>en \<in> set (cb priv). cbfunc en = None then OK else Inl ENOSPC),
      priv\<lparr>cb := map (\<lambda>en. if cbfunc en = None then en\<lparr>pinset := ps, cbfunc := callback\<rparr> else en)
                      (cb priv)\<rparr>,
      [Lock, Unlock])"
proof -
  from assms have p1: "p1 = priv\<lparr>exclsem := exclsem priv - 1\<rparr>"
    by (rule skel_lock_Acquired)
  show ?thesis
    by (simp add: skel_attach_def assms skel_attach_loop_map p1 skel_unlock_def)
qed

lemma released_no_lock:
  "\<forall>ev \<in> set evs. ev \<noteq> Lock \<and> ev \<noteq> Unlock \<Longrightarrow> released h evs = (\<not> h)"
proof (induction evs)
  case Nil
  then show ?case by simp
next
  case (Cons ev evs)
  then show ?case by (cases ev) simp_all
qed

lemma skel_irqworker_no_lock:
  "\<forall>ev \<in> set (skel_irqworker e priv). ev \<noteq> Lock \<and> ev \<noteq> Unlock"
  by (auto simp: skel_irqworker_events)

lemma skel_direction_shape:
  "skel_direction npins e priv pin dir = (out, priv', evs) \<Longrightarrow>
   priv' = priv \<and> released False evs"
  by (auto simp: skel_direction_def DEBUGASSERT_def skel_unlock_lock
           split: acquire.splits if_splits)

lemma skel_option_shape:
  "skel_option e priv pin opt = (out, priv', evs) \<Longrightarrow>
   priv' = priv \<and> released False evs"
  by (auto simp: skel_option_def skel_unlock_lock split: acquire.splits if_splits)

lemma skel_writepin_shape:
  "skel_writepin npins e priv pin val = (out, priv', evs) \<Longrightarrow>
   priv' = priv \<and> released False evs"
  by (auto simp: skel_writepin_def DEBUGASSERT_def skel_unlock_lock
           split: acquire.splits if_splits)

lemma skel_readpin_shape:
  "skel_readpin npins e priv pin = (out, priv', evs) \<Longrightarrow>
   priv' = priv \<and> released False evs"
  by (auto simp: skel_readpin_def DEBUGASSERT_def skel_unlock_lock
           split: acquire.splits if_splits)

lemma skel_readbuf_shape:
  "skel_readbuf e priv pin = (out, priv', evs) \<Longrightarrow>
   priv' = priv \<and> released False evs"
  by (auto simp: skel_readbuf_def skel_unlock_lock split: acquire.splits)

lemma skel_multiwritepin_shape:
  "skel_multiwritepin npins e priv pins vals count = (out, priv', evs) \<Longrightarrow>
   priv' = priv \<and> released False evs"
  by (auto simp: skel_multiwritepin_def skel_unlock_lock split: acquire.splits option.splits)

lemma skel_multireadpin_shape:
  "fst (skel_multireadpin npins e priv pins vals count) = (out, priv', evs) \<Longrightarrow>
   priv' = priv \<and> released False evs"
  by (auto simp: skel_multireadpin_def skel_getmultibits_def DEBUGASSERT_def skel_unlock_lock
           split: acquire.splits if_splits prod.splits)

lemma skel_multireadbuf_shape:
  "fst (skel_multireadbuf npins e priv pins vals count) = (out, priv', evs) \<Longrightarrow>
   priv' = priv \<and> released False evs"
  by (auto simp: skel_multireadbuf_def skel_getmultibits_def DEBUGASSERT_def skel_unlock_lock
           split: acquire.splits if_splits prod.splits)

lemma skel_attach_shape:
  "skel_attach e priv ps callback = (out, priv', evs) \<Longrightarrow>
   (priv' = priv \<or>
    priv' = priv\<lparr>cb := map (\<lambda>en. if cbfunc en = None then en\<lparr>pinset := ps, cbfunc := callback\<rparr> else en)
                          (cb priv)\<rparr>) \<and>
   released False evs"
proof (cases "skel_lock (waits e) priv")
  case (Acquired p1)
  assume "skel_attach e priv ps callback = (out, priv', evs)"
  then show ?thesis
    by (auto simp: skel_attach_acquired [OF Acquired])
next
  case Assert_failed
  assume "skel_attach e priv ps callback = (out, priv', evs)"
  with Assert_failed show ?thesis by (auto simp: skel_attach_def)
next
  case Waiting
  assume "skel_attach e priv ps callback = (out, priv', evs)"
  with Waiting show ?thesis by (auto simp: skel_attach_def)
qed

lemma skel_interrupt_shape:
  "skel_interrupt priv = (out, priv', evs) \<Longrightarrow>
   (priv' = priv \<or> work priv = 0 \<and> priv' = priv\<lparr>work := 1\<rparr>) \<and> released False evs"
  by (auto simp: skel_interrupt_def work_available_def work_queue_def split: if_splits)

lemma worker_thread_shape:
  "worker_thread e priv = (out, priv', evs) \<Longrightarrow>
   (priv' = priv \<or> priv' = priv\<lparr>work := work priv - 1\<rparr>) \<and> released False evs"
  by (auto simp: worker_thread_def released_no_lock [OF skel_irqworker_no_lock] split: if_splits)

lemma run_shape:
  assumes "run npins e c priv = (out, priv', evs)"
  shows "released False evs"
    and "c \<noteq> Initialize \<Longrightarrow> exclsem priv' = exclsem priv"
    and "work priv \<le> 1 \<Longrightarrow> work priv' \<le> 1"
    and "length (cb priv') = length (cb priv)"
    and "k < length (cb priv) \<Longrightarrow> cbfunc (cb priv ! k) \<noteq> None \<Longrightarrow> cb priv' ! k = cb priv ! k"
proof -
  have "released False evs \<and> (c \<noteq> Initialize \<longrightarrow> exclsem priv' = exclsem priv) \<and>
        (work priv \<le> 1 \<longrightarrow> work priv' \<le> 1) \<and> length (cb priv') = length (cb priv) \<and>
        (k < length (cb priv) \<longrightarrow> cbfunc (cb priv ! k) \<noteq> None \<longrightarrow> cb priv' ! k = cb priv ! k)"
  proof (cases c)
    case Initialize
    with assms show ?thesis by (auto simp: skel_initialize_def)
  next
    case (Direction pin dir)
    with assms skel_direction_shape [of npins e priv pin dir out priv' evs] show ?thesis by simp
  next
    case (Option pin opt)
    with assms skel_option_shape [of e priv pin opt out priv' evs] show ?thesis by simp
  next
    case (Writepin pin val)
    with assms skel_writepin_shape [of npins e priv pin val out priv' evs] show ?thesis by simp
  next
    case (Readpin pin)
    with assms skel_readpin_shape [of npins e priv pin out priv' evs] show ?thesis by simp
  next
    case (Readbuf pin)
    with assms skel_readbuf_shape [of e priv pin out priv' evs] show ?thesis by simp
  next
    case (Multiwritepin pins vals count)
    with assms skel_multiwritepin_shape [of npins e priv pins vals count out priv' evs]
    show ?thesis by simp
  next
    case (Multireadpin pins vals count)
    with assms skel_multireadpin_shape [of npins e priv pins vals count out priv' evs]
    show ?thesis by simp
  next
    case (Multireadbuf pins vals count)
    with assms skel_multireadbuf_shape [of npins e priv pins vals count out priv' evs]
    show ?thesis by simp
  next
    case (Attach ps callback)
    with assms skel_attach_shape [of e priv ps callback out priv' evs]
    show ?thesis by auto
  next
    case Interrupt
    with assms skel_interrupt_shape [of priv out priv' evs] show ?thesis by auto
  next
    case Worker
    with assms worker_thread_shape [of e priv out priv' evs] show ?thesis by auto
  qed
  then show "released False evs"
    and "c \<noteq> Initialize \<Longrightarrow> exclsem priv' = exclsem priv"
    and "work priv \<le> 1 \<Longrightarrow> work priv' \<le> 1"
    and "length (cb priv') = length (cb priv)"
    and "k < length (cb priv) \<Longrightarrow> cbfunc (cb priv ! k) \<noteq> None \<Longrightarrow> cb priv' ! k = cb priv ! k"
    by simp_all
qed

lemma runs_invariant:
  "length (cb (runs npins cs priv)) = length (cb priv) \<and>
   (work priv \<le> 1 \<longrightarrow> work (runs npins cs priv) \<le> 1) \<and>
   (k < length (cb priv) \<longrightarrow> cbfunc (cb priv ! k) \<noteq> None \<longrightarrow>
      cb (runs npins cs priv) ! k = cb priv ! k)"
proof (induction cs arbitrary: priv)
  case Nil
  show ?case by simp
next
  case (Cons ec cs)
  obtain e c where ec: "ec = (e, c)" by (cases ec)
  obtain out priv' evs where r: "run npins e c priv = (out, priv', evs)"
    by (cases "run npins e c priv")
  note s = run_shape [OF r]
  show ?case
  proof (cases out)
    case (Returned ret)
    then have "runs npins (ec # cs) priv = runs npins cs priv'"
      by (simp add: ec r)
    with Cons.IH [of priv'] s(3) s(4) s(5) [of k] show ?thesis by auto
  next
    case Asserted
    then have "runs npins (ec # cs) priv = priv'" by (simp add: ec r)
    with s(3) s(4) s(5) [of k] show ?thesis by auto
  next
    case Blocked
    then have "runs npins (ec # cs) priv = priv'" by (simp add: ec r)
    with s(3) s(4) s(5) [of k] show ?thesis by auto
  qed
qed

section \<open>The properties of the specification\<close>

text \<open>
  C1. The specification: with at least one free entry, attach fills exactly one free
  entry, the first one found; from an all-free table of capacity \<open>N\<close> it succeeds exactly
  \<open>N\<close> times before it reports that the table is full, and a failed attempt alters no
  entry.

  The loop of \<^verbatim>\<open>skel_attach\<close> does not stop at the first free entry. On a table of two
  free entries the first call writes the pinset and the handler into both entries and
  returns \<^verbatim>\<open>OK\<close>; the second call, which should succeed, finds no free entry
  and returns \<^verbatim>\<open>-ENOSPC\<close> (leaving the table as it was).
\<close>

theorem attach_fills_every_free_entry:
  "skel_attach \<lparr>waits = [Sem_ok], hw_pinset = 0, hw_ret = OK\<rparr>
     (\<lparr>exclsem = 1, work = 0,
       cb = [\<lparr>pinset = 0, cbfunc = None\<rparr>, \<lparr>pinset = 0, cbfunc = None\<rparr>]\<rparr> :: 8 word skel_dev_s)
     1 (Some 10) =
   (Returned OK,
    \<lparr>exclsem = 1, work = 0,
     cb = [\<lparr>pinset = 1, cbfunc = Some 10\<rparr>, \<lparr>pinset = 1, cbfunc = Some 10\<rparr>]\<rparr>,
    [Lock, Unlock]) \<and>
   skel_attach \<lparr>waits = [Sem_ok], hw_pinset = 0, hw_ret = OK\<rparr>
     (\<lparr>exclsem = 1, work = 0,
       cb = [\<lparr>pinset = 1, cbfunc = Some 10\<rparr>, \<lparr>pinset = 1, cbfunc = Some 10\<rparr>]\<rparr> :: 8 word skel_dev_s)
     2 (Some 20) =
   (Returned (Inl ENOSPC),
    \<lparr>exclsem = 1, work = 0,
     cb = [\<lparr>pinset = 1, cbfunc = Some 10\<rparr>, \<lparr>pinset = 1, cbfunc = Some 10\<rparr>]\<rparr>,
    [Lock, Unlock])"
  by (simp add: skel_attach_def skel_attach_loop_map skel_unlock_def)

text \<open>
  C2, as stated, fails. With 8 pins, \<^verbatim>\<open>skel_multiwritepin\<close> called on the single pin 8
  returns \<^verbatim>\<open>-ENXIO\<close>, but only inside the locked region: it has taken the lock and read
  the pinset from the hardware before the loop looks at the pin.
\<close>

theorem multiwritepin_out_of_range_takes_lock:
  "8 \<le> unat (8 :: pin_t) \<and>
   skel_multiwritepin 8 \<lparr>waits = [Sem_ok], hw_pinset = 0, hw_ret = OK\<rparr>
     (\<lparr>exclsem = 1, work = 0, cb = []\<rparr> :: 8 word skel_dev_s) [8] [True] 1 =
   (Returned (Inl ENXIO), \<lparr>exclsem = 1, work = 0, cb = []\<rparr>, [Lock, Read_pinset, Unlock]) \<and>
   Lock \<in> set (snd (snd (skel_multiwritepin 8 \<lparr>waits = [Sem_ok], hw_pinset = 0, hw_ret = OK\<rparr>
     (\<lparr>exclsem = 1, work = 0, cb = []\<rparr> :: 8 word skel_dev_s) [8] [True] 1))) \<and>
   Read_pinset \<in> set (snd (snd (skel_multiwritepin 8 \<lparr>waits = [Sem_ok], hw_pinset = 0, hw_ret = OK\<rparr>
     (\<lparr>exclsem = 1, work = 0, cb = []\<rparr> :: 8 word skel_dev_s) [8] [True] 1)))"
  by (simp add: skel_multiwritepin_def skel_multiwritepin_loop.simps skel_unlock_def)

text \<open>
  C2, amended. For every pin index \<open>pin\<close> that is not below the pin count:
  direction-set, single pin write and single pin read-actual stop on their assertion,
  before the lock is taken and without any access to the hardware; multiple pin write,
  read-actual and read-buffered, given a list that holds \<open>pin\<close> among its first
  \<^verbatim>\<open>count\<close> elements, return \<^verbatim>\<open>-ENXIO\<close> after they have taken the lock and read the
  pinset once, they release the lock before they return, and they write nothing to the
  hardware. The device structure is unchanged in all six cases.
\<close>

theorem out_of_range_pin:
  assumes "npins \<le> unat pin"
    and "i < length pins" and "int i < count" and "pins ! i = pin"
    and "skel_lock (waits e) priv = Acquired p1"
  shows "skel_direction npins e priv pin dir = (Asserted, priv, []) \<and>
         skel_writepin npins e priv pin val = (Asserted, priv, []) \<and>
         skel_readpin npins e priv pin = (Asserted, priv, []) \<and>
         skel_multiwritepin npins e priv pins vals count =
           (Returned (Inl ENXIO), priv, [Lock, Read_pinset, Unlock]) \<and>
         fst (skel_multireadpin npins e priv pins bufr count) =
           (Returned (Inl ENXIO), priv, [Lock, Read_pinset, Unlock]) \<and>
         fst (skel_multireadbuf npins e priv pins bufr count) =
           (Returned (Inl ENXIO), priv, [Lock, Read_pinset, Unlock])"
proof -
  from assms(1) have single: "\<not> unat pin < npins" by simp
  from assms(1,4) have bad: "npins \<le> unat (pins ! i)" by simp
  note unl = skel_unlock_lock [OF assms(5)]
  have w: "skel_multiwritepin_loop npins 0 pins vals count (hw_pinset e) = None"
    by (rule skel_multiwritepin_loop_out_of_range [OF _ assms(3) bad]) simp
  have "fst (skel_getmultibits_loop npins (hw_pinset e) 0 pins bufr count) = Inl ENXIO"
    by (rule skel_getmultibits_loop_out_of_range [OF _ assms(3) bad]) simp
  then obtain bufr' where r:
    "skel_getmultibits_loop npins (hw_pinset e) 0 pins bufr count = (Inl ENXIO, bufr')"
    by (cases "skel_getmultibits_loop npins (hw_pinset e) 0 pins bufr count") simp
  from assms(3) have pos: "0 < count" by simp
  have "skel_direction npins e priv pin dir = (Asserted, priv, [])"
    using single by (simp add: skel_direction_def DEBUGASSERT_def)
  moreover have "skel_writepin npins e priv pin val = (Asserted, priv, [])"
    using single by (simp add: skel_writepin_def DEBUGASSERT_def)
  moreover have "skel_readpin npins e priv pin = (Asserted, priv, [])"
    using single by (simp add: skel_readpin_def DEBUGASSERT_def)
  moreover have "skel_multiwritepin npins e priv pins vals count =
           (Returned (Inl ENXIO), priv, [Lock, Read_pinset, Unlock])"
    by (simp add: skel_multiwritepin_def assms(5) w unl)
  moreover have "fst (skel_multireadpin npins e priv pins bufr count) =
           (Returned (Inl ENXIO), priv, [Lock, Read_pinset, Unlock])"
    using pos by (simp add: skel_multireadpin_def DEBUGASSERT_def assms(5) skel_getmultibits_def r unl)
  moreover have "fst (skel_multireadbuf npins e priv pins bufr count) =
           (Returned (Inl ENXIO), priv, [Lock, Read_pinset, Unlock])"
    using pos by (simp add: skel_multireadbuf_def DEBUGASSERT_def assms(5) skel_getmultibits_def r unl)
  ultimately show ?thesis by simp
qed

text \<open>With 8 pins: pin 8 alone, and pin 8 as the second element of a list.\<close>

theorem out_of_range_pin_witness:
  "skel_direction 8 \<lparr>waits = [Sem_ok], hw_pinset = 0, hw_ret = OK\<rparr>
     (\<lparr>exclsem = 1, work = 0, cb = []\<rparr> :: 8 word skel_dev_s) 8 IOEXPANDER_DIRECTION_IN =
     (Asserted, \<lparr>exclsem = 1, work = 0, cb = []\<rparr>, []) \<and>
   fst (skel_multireadpin 8 \<lparr>waits = [Sem_ok], hw_pinset = 0, hw_ret = OK\<rparr>
     (\<lparr>exclsem = 1, work = 0, cb = []\<rparr> :: 8 word skel_dev_s) [1, 8] [False, False] 2) =
     (Returned (Inl ENXIO), \<lparr>exclsem = 1, work = 0, cb = []\<rparr>, [Lock, Read_pinset, Unlock])"
  using out_of_range_pin [of 8 8 1 "[1, 8]" 2 "\<lparr>waits = [Sem_ok], hw_pinset = 0, hw_ret = OK\<rparr>"
     "\<lparr>exclsem = 1, work = 0, cb = []\<rparr> :: 8 word skel_dev_s" "\<lparr>exclsem = 0, work = 0, cb = []\<rparr>"
     IOEXPANDER_DIRECTION_IN True "[True, False]" "[False, False]"]
  by simp

text \<open>
  C3. While a bottom half is outstanding for the device (\<open>0 < work priv\<close>), the top half
  \<^verbatim>\<open>skel_interrupt\<close> schedules nothing and changes nothing: it returns \<^verbatim>\<open>OK\<close> with the same
  device structure and no event. With none outstanding it disables the interrupt and
  queues one. Therefore, whatever calls are made in whatever order (interrupts, runs of
  the worker, pin operations, attach), at most one bottom half is ever queued for the
  device: from any state with at most one queued, and in particular from the initial
  state.
\<close>

theorem one_bottom_half_outstanding:
  "(0 < work priv \<longrightarrow> skel_interrupt priv = (Returned OK, priv, [])) \<and>
   (work priv = 0 \<longrightarrow>
      skel_interrupt priv = (Returned OK, priv\<lparr>work := 1\<rparr>, [Disable_irq, Work_queue])) \<and>
   (work priv \<le> 1 \<longrightarrow> work (runs npins cs priv) \<le> 1) \<and>
   work (runs npins cs (g_skel n)) \<le> 1"
proof -
  have "work (g_skel n :: 'a word skel_dev_s) \<le> 1" by (simp add: g_skel_def)
  with runs_invariant [of npins cs "g_skel n :: 'a word skel_dev_s"]
  have "work (runs npins cs (g_skel n :: 'a word skel_dev_s)) \<le> 1" by simp
  with runs_invariant [of npins cs priv] show ?thesis
    by (simp add: skel_interrupt_def work_available_def work_queue_def)
qed

text \<open>An interrupt with one bottom half queued; and two interrupts in a row from an idle device.\<close>

theorem one_bottom_half_outstanding_witness:
  "skel_interrupt (\<lparr>exclsem = 1, work = 1, cb = []\<rparr> :: 8 word skel_dev_s) =
     (Returned OK, \<lparr>exclsem = 1, work = 1, cb = []\<rparr>, []) \<and>
   work (runs 8 [(\<lparr>waits = [], hw_pinset = 0, hw_ret = OK\<rparr>, Interrupt),
                 (\<lparr>waits = [], hw_pinset = 0, hw_ret = OK\<rparr>, Interrupt)]
           (\<lparr>exclsem = 1, work = 0, cb = []\<rparr> :: 8 word skel_dev_s)) = 1"
proof -
  have "work (runs 8 [(\<lparr>waits = [], hw_pinset = 0, hw_ret = OK\<rparr>, Interrupt),
                 (\<lparr>waits = [], hw_pinset = 0, hw_ret = OK\<rparr>, Interrupt)]
           (\<lparr>exclsem = 1, work = 0, cb = []\<rparr> :: 8 word skel_dev_s)) \<ge> 1"
    by (simp add: skel_interrupt_def work_available_def work_queue_def)
  with one_bottom_half_outstanding [of "\<lparr>exclsem = 1, work = 1, cb = []\<rparr> :: 8 word skel_dev_s" 8
     "[(\<lparr>waits = [], hw_pinset = 0, hw_ret = OK\<rparr>, Interrupt),
       (\<lparr>waits = [], hw_pinset = 0, hw_ret = OK\<rparr>, Interrupt)]" 0]
    one_bottom_half_outstanding [of "\<lparr>exclsem = 1, work = 0, cb = []\<rparr> :: 8 word skel_dev_s" 8
     "[(\<lparr>waits = [], hw_pinset = 0, hw_ret = OK\<rparr>, Interrupt),
       (\<lparr>waits = [], hw_pinset = 0, hw_ret = OK\<rparr>, Interrupt)]" 0]
  show ?thesis by simp
qed

text \<open>
  C4. For every pinset read from the hardware and every callback table, the events of
  the bottom half \<^verbatim>\<open>skel_irqworker\<close> are: the read; then, in the order of the table, one
  call for exactly those entries that have a handler and whose pinset of interest meets
  the pinset read, each call with that entry's handler and the intersection of the two
  pinsets as its argument; then the re-enabling of interrupts.
\<close>

theorem irqworker_dispatch:
  "skel_irqworker e priv =
     [Read_pinset] @
     map (\<lambda>en. Callback (the (cbfunc en)) (hw_pinset e AND pinset en))
         (filter (\<lambda>en. cbfunc en \<noteq> None \<and> hw_pinset e AND pinset en \<noteq> 0) (cb priv)) @
     [Enable_irq]"
  by (rule skel_irqworker_events)

text \<open>
  Pinset 5 read, four entries: interest 3 (called with 1), a free entry, interest 8 (not
  called), interest 6 (called with 4).
\<close>

theorem irqworker_dispatch_witness:
  "skel_irqworker \<lparr>waits = [], hw_pinset = 5 :: 8 word, hw_ret = OK\<rparr>
     \<lparr>exclsem = 1, work = 0,
      cb = [\<lparr>pinset = 3, cbfunc = Some 10\<rparr>, \<lparr>pinset = 0, cbfunc = None\<rparr>,
            \<lparr>pinset = 8, cbfunc = Some 20\<rparr>, \<lparr>pinset = 6, cbfunc = Some 30\<rparr>]\<rparr> =
   [Read_pinset, Callback 10 1, Callback 30 4, Enable_irq]"
  using irqworker_dispatch [of "\<lparr>waits = [], hw_pinset = 5 :: 8 word, hw_ret = OK\<rparr>"
     "\<lparr>exclsem = 1, work = 0,
      cb = [\<lparr>pinset = 3, cbfunc = Some 10\<rparr>, \<lparr>pinset = 0, cbfunc = None\<rparr>,
            \<lparr>pinset = 8, cbfunc = Some 20\<rparr>, \<lparr>pinset = 6, cbfunc = Some 30\<rparr>]\<rparr>"]
  by simp

text \<open>
  C6. The specification: for every batch of in-range pins, multiple pin write does one
  read and one write of the hardware: it reads the pinset, applies the requested change
  of each pin to the value read, and writes the merged pinset back.

  \<^verbatim>\<open>skel_multiwritepin\<close> does one read and one write, but it computes the mask of a pin
  as \<^verbatim>\<open>(1 << pin)\<close> in \<^verbatim>\<open>int\<close>, and the conversion to a pinset wider than \<^verbatim>\<open>int\<close> extends
  the sign. With 64 pins and a pinset of 64 bits, the batch that sets the pins 31 and 0
  on a pinset read as 0 writes \<open>0xFFFFFFFF80000001\<close>: the bits 32 to 63, which nobody
  asked for, are set as well. The merged pinset the specification describes is
  \<open>0x80000001\<close>.
\<close>

theorem multiwritepin_wide_pinset:
  "unat (31 :: pin_t) < 64 \<and> unat (0 :: pin_t) < 64 \<and>
   skel_multiwritepin 64 \<lparr>waits = [Sem_ok], hw_pinset = 0, hw_ret = OK\<rparr>
     (\<lparr>exclsem = 1, work = 0, cb = []\<rparr> :: 64 word skel_dev_s) [31, 0] [True, True] 2 =
   (Returned OK, \<lparr>exclsem = 1, work = 0, cb = []\<rparr>,
    [Lock, Read_pinset, Write_pinset 0xFFFFFFFF80000001, Unlock]) \<and>
   set_bit 0 (set_bit 31 (0 :: 64 word)) = 0x80000001 \<and>
   (0xFFFFFFFF80000001 :: 64 word) \<noteq> 0x80000001"
  by (simp add: skel_multiwritepin_def skel_multiwritepin_loop.simps pin_mask_def skel_unlock_def)

text \<open>
  C7. \<^verbatim>\<open>skel_lock\<close> tries again after every wait that was interrupted (\<^verbatim>\<open>EINTR\<close>), any
  number of times, and takes the semaphore when the wait succeeds; on any other failure
  of the wait its assertion fails. Every call of the driver, however it ends (also when
  it returns an error), leaves the lock released: in its events the lock is given back
  after each time it is taken, and the count of the semaphore is what it was before the
  call (initialisation apart, which sets it).
\<close>

theorem lock_retried_and_released:
  "skel_lock (replicate n (Sem_fail EINTR) @ Sem_ok # ws) priv =
     Acquired (priv\<lparr>exclsem := exclsem priv - 1\<rparr>) \<and>
   (err \<noteq> EINTR \<longrightarrow>
      skel_lock (replicate n (Sem_fail EINTR) @ Sem_fail err # ws) priv = Assert_failed) \<and>
   released False (snd (snd (run npins e c priv))) \<and>
   (c \<noteq> Initialize \<longrightarrow> exclsem (fst (snd (run npins e c priv))) = exclsem priv)"
proof -
  obtain out priv' evs where r: "run npins e c priv = (out, priv', evs)"
    by (cases "run npins e c priv")
  note s = run_shape [OF r]
  from s(1) s(2) show ?thesis
    by (simp add: skel_lock_retry DEBUGASSERT_def r)
qed

text \<open>
  Two interrupted waits and a success; two interrupted waits and another failure; and
  the error return of a multiple pin write.
\<close>

theorem lock_retried_and_released_witness:
  "skel_lock [Sem_fail EINTR, Sem_fail EINTR, Sem_ok] (\<lparr>exclsem = 1, work = 0, cb = []\<rparr> :: 8 word skel_dev_s) =
     Acquired \<lparr>exclsem = 0, work = 0, cb = []\<rparr> \<and>
   skel_lock [Sem_fail EINTR, Sem_fail EINTR, Sem_fail ENOSYS, Sem_ok]
     (\<lparr>exclsem = 1, work = 0, cb = []\<rparr> :: 8 word skel_dev_s) = Assert_failed \<and>
   run 8 \<lparr>waits = [Sem_ok], hw_pinset = 0, hw_ret = OK\<rparr> (Multiwritepin [8] [True] 1)
     (\<lparr>exclsem = 1, work = 0, cb = []\<rparr> :: 8 word skel_dev_s) =
     (Returned (Inl ENXIO), \<lparr>exclsem = 1, work = 0, cb = []\<rparr>, [Lock, Read_pinset, Unlock]) \<and>
   released False (snd (snd (run 8 \<lparr>waits = [Sem_ok], hw_pinset = 0, hw_ret = OK\<rparr> (Multiwritepin [8] [True] 1)
     (\<lparr>exclsem = 1, work = 0, cb = []\<rparr> :: 8 word skel_dev_s))))"
proof -
  have rep: "replicate 2 (Sem_fail EINTR) = [Sem_fail EINTR, Sem_fail EINTR]"
    by (simp add: numeral_2_eq_2)
  from lock_retried_and_released [of 2 "[]" "\<lparr>exclsem = 1, work = 0, cb = []\<rparr> :: 8 word skel_dev_s"
     ENOSYS 8 "\<lparr>waits = [Sem_ok], hw_pinset = 0, hw_ret = OK\<rparr>" "Multiwritepin [8] [True] 1"]
    lock_retried_and_released [of 2 "[Sem_ok]" "\<lparr>exclsem = 1, work = 0, cb = []\<rparr> :: 8 word skel_dev_s"
     ENOSYS 8 "\<lparr>waits = [Sem_ok], hw_pinset = 0, hw_ret = OK\<rparr>" "Multiwritepin [8] [True] 1"]
  show ?thesis
    by (simp add: rep DEBUGASSERT_def skel_multiwritepin_def skel_multiwritepin_loop.simps
          skel_unlock_def)
qed

text \<open>
  C8. For every option other than the polarity inversion, \<^verbatim>\<open>skel_option\<close> returns
  \<^verbatim>\<open>-ENOSYS\<close> with no event at all (the lock is not taken, the hardware is not accessed)
  and the device structure unchanged. The polarity inversion is the option that enters
  the locked region: the lock, the setting of the option, the unlock.
\<close>

theorem option_not_supported:
  "(opt \<noteq> IOEXPANDER_OPTION_INVERT \<longrightarrow>
      skel_option e priv pin opt = (Returned (Inl ENOSYS), priv, [])) \<and>
   (skel_lock (waits e) priv = Acquired p1 \<longrightarrow>
      skel_option e priv pin IOEXPANDER_OPTION_INVERT =
        (Returned (hw_ret e), priv, [Lock, Set_option pin, Unlock]))"
  by (auto simp: skel_option_def skel_unlock_lock)

text \<open>Another option on pin 3, and the polarity inversion on pin 3.\<close>

theorem option_not_supported_witness:
  "skel_option \<lparr>waits = [Sem_ok], hw_pinset = 0 :: 8 word, hw_ret = OK\<rparr>
     \<lparr>exclsem = 1, work = 0, cb = []\<rparr> 3 (IOEXPANDER_OPTION_other 2) =
     (Returned (Inl ENOSYS), \<lparr>exclsem = 1, work = 0, cb = []\<rparr>, []) \<and>
   skel_option \<lparr>waits = [Sem_ok], hw_pinset = 0 :: 8 word, hw_ret = OK\<rparr>
     \<lparr>exclsem = 1, work = 0, cb = []\<rparr> 3 IOEXPANDER_OPTION_INVERT =
     (Returned OK, \<lparr>exclsem = 1, work = 0, cb = []\<rparr>, [Lock, Set_option 3, Unlock])"
  using option_not_supported [of "IOEXPANDER_OPTION_other 2"
     "\<lparr>waits = [Sem_ok], hw_pinset = 0 :: 8 word, hw_ret = OK\<rparr>"
     "\<lparr>exclsem = 1, work = 0, cb = []\<rparr>" 3 "\<lparr>exclsem = 0, work = 0, cb = []\<rparr>"]
  by simp

text \<open>
  C9. No call frees an occupied entry of the callback table. After any history of calls,
  the table has the same length, and every entry that had a handler is unchanged, so it
  still has one. In particular attach with a \<^verbatim>\<open>NULL\<close> callback detaches nothing: when the
  table has a free entry, it returns \<^verbatim>\<open>OK\<close> and writes the pinset and the \<^verbatim>\<open>NULL\<close> handler
  into the free entries (which stay free), and every occupied entry is as before.
\<close>

theorem occupied_entries_stay:
  "length (cb (runs npins cs priv)) = length (cb priv) \<and>
   (k < length (cb priv) \<and> cbfunc (cb priv ! k) \<noteq> None \<longrightarrow>
      cb (runs npins cs priv) ! k = cb priv ! k \<and> cbfunc (cb (runs npins cs priv) ! k) \<noteq> None) \<and>
   (skel_lock (waits e) priv = Acquired p1 \<and> (\<exists>en \<in> set (cb priv). cbfunc en = None) \<longrightarrow>
      skel_attach e priv ps None =
        (Returned OK,
         priv\<lparr>cb := map (\<lambda>en. if cbfunc en = None then en\<lparr>pinset := ps\<rparr> else en) (cb priv)\<rparr>,
         [Lock, Unlock]))"
proof -
  have m: "map (\<lambda>en. if cbfunc en = None then en\<lparr>pinset := ps, cbfunc := None\<rparr> else en) (cb priv) =
           map (\<lambda>en. if cbfunc en = None then en\<lparr>pinset := ps\<rparr> else en) (cb priv)"
    by (rule map_cong) auto
  have "skel_lock (waits e) priv = Acquired p1 \<and> (\<exists>en \<in> set (cb priv). cbfunc en = None) \<longrightarrow>
      skel_attach e priv ps None =
        (Returned OK,
         priv\<lparr>cb := map (\<lambda>en. if cbfunc en = None then en\<lparr>pinset := ps\<rparr> else en) (cb priv)\<rparr>,
         [Lock, Unlock])"
    by (auto simp del: not_None_eq simp add: skel_attach_acquired m)
  with runs_invariant [of npins cs priv k] show ?thesis by (auto simp del: not_None_eq)
qed

text \<open>An occupied and a free entry; attach with \<^verbatim>\<open>NULL\<close>, then attach with a handler.\<close>

theorem occupied_entries_stay_witness:
  "cb (runs 8 [(\<lparr>waits = [Sem_ok], hw_pinset = 0, hw_ret = OK\<rparr>, Attach 12 None), 
               (\<lparr>waits = [Sem_ok], hw_pinset = 0, hw_ret = OK\<rparr>, Attach 7 (Some 20))]
         (\<lparr>exclsem = 1, work = 0,
           cb = [\<lparr>pinset = 3, cbfunc = Some 10\<rparr>, \<lparr>pinset = 0, cbfunc = None\<rparr>]\<rparr> :: 8 word skel_dev_s)) ! 0 =
     \<lparr>pinset = 3, cbfunc = Some 10\<rparr> \<and>
   skel_attach \<lparr>waits = [Sem_ok], hw_pinset = 0, hw_ret = OK\<rparr>
     (\<lparr>exclsem = 1, work = 0,
       cb = [\<lparr>pinset = 3, cbfunc = Some 10\<rparr>, \<lparr>pinset = 0, cbfunc = None\<rparr>]\<rparr> :: 8 word skel_dev_s)
     12 None =
   (Returned OK,
    \<lparr>exclsem = 1, work = 0, cb = [\<lparr>pinset = 3, cbfunc = Some 10\<rparr>, \<lparr>pinset = 12, cbfunc = None\<rparr>]\<rparr>,
    [Lock, Unlock])"
  using occupied_entries_stay [of 8
      "[(\<lparr>waits = [Sem_ok], hw_pinset = 0, hw_ret = OK\<rparr>, Attach 12 None), 
        (\<lparr>waits = [Sem_ok], hw_pinset = 0, hw_ret = OK\<rparr>, Attach 7 (Some 20))]"
      "\<lparr>exclsem = 1, work = 0,
           cb = [\<lparr>pinset = 3, cbfunc = Some 10\<rparr>, \<lparr>pinset = 0, cbfunc = None\<rparr>]\<rparr> :: 8 word skel_dev_s"
      0 "\<lparr>waits = [Sem_ok], hw_pinset = 0, hw_ret = OK\<rparr>"
      "\<lparr>exclsem = 0, work = 0,
           cb = [\<lparr>pinset = 3, cbfunc = Some 10\<rparr>, \<lparr>pinset = 0, cbfunc = None\<rparr>]\<rparr>" 12]
  by (simp del: runs.simps)

text \<open>
  C10. When the first pin index that is not below the pin count is at position \<open>i\<close> of
  the list, multiple pin read (actual and buffered) returns \<^verbatim>\<open>-ENXIO\<close>, and the caller's
  buffer has been overwritten at the positions before \<open>i\<close> with the levels of those
  pins; from position \<open>i\<close> on it is as the caller passed it. The failed read is not
  free of side effects on the buffer.
\<close>

theorem multiread_failure_writes_buffer:
  assumes "skel_lock (waits e) priv = Acquired p1"
    and "i < length pins" and "i \<le> length vals" and "int i < count"
    and "npins \<le> unat (pins ! i)" and "\<forall>j<i. unat (pins ! j) < npins"
  shows "skel_multireadpin npins e priv pins vals count =
           ((Returned (Inl ENXIO), priv, [Lock, Read_pinset, Unlock]),
            map (\<lambda>j. hw_pinset e AND pin_mask (pins ! j) \<noteq> 0) [0..<i] @ drop i vals) \<and>
         skel_multireadbuf npins e priv pins vals count =
           ((Returned (Inl ENXIO), priv, [Lock, Read_pinset, Unlock]),
            map (\<lambda>j. hw_pinset e AND pin_mask (pins ! j) \<noteq> 0) [0..<i] @ drop i vals)"
proof -
  from assms(4) have pos: "0 < count" by simp
  have "skel_getmultibits_loop npins (hw_pinset e) 0 pins vals count =
     (Inl ENXIO, fold (\<lambda>j vs. vs[j := (hw_pinset e AND pin_mask (pins ! j) \<noteq> 0)]) [0..<i] vals)"
    using assms(6) by (intro skel_getmultibits_loop_fail [OF _ assms(4) assms(5)]) simp_all
  then have l: "skel_getmultibits_loop npins (hw_pinset e) 0 pins vals count =
     (Inl ENXIO, map (\<lambda>j. hw_pinset e AND pin_mask (pins ! j) \<noteq> 0) [0..<i] @ drop i vals)"
    by (simp only: fold_update_prefix [OF assms(3)])
  show ?thesis
    using pos
    by (simp add: skel_multireadpin_def skel_multireadbuf_def DEBUGASSERT_def assms(1)
          skel_getmultibits_def l skel_unlock_lock [OF assms(1)])
qed

text \<open>With 8 pins and pinset 2 read: the list 1, 9 changes the first element of the buffer.\<close>

theorem multiread_failure_writes_buffer_witness:
  "skel_multireadpin 8 \<lparr>waits = [Sem_ok], hw_pinset = 2, hw_ret = OK\<rparr>
     (\<lparr>exclsem = 1, work = 0, cb = []\<rparr> :: 8 word skel_dev_s) [1, 9] [False, False] 2 =
   ((Returned (Inl ENXIO), \<lparr>exclsem = 1, work = 0, cb = []\<rparr>, [Lock, Read_pinset, Unlock]),
    [True, False])"
  using multiread_failure_writes_buffer [of "\<lparr>waits = [Sem_ok], hw_pinset = 2, hw_ret = OK\<rparr>"
     "\<lparr>exclsem = 1, work = 0, cb = []\<rparr> :: 8 word skel_dev_s" "\<lparr>exclsem = 0, work = 0, cb = []\<rparr>"
     1 "[1, 9]" "[False, False]" 2 8]
  by (simp add: pin_mask_def)

end
